theory Spec2Isabelle
  imports Main "HOL-Library.Sublist"
begin

section \<open>Values, handlers and foreign then-shaped objects\<close>

text \<open>
  The source is \<^verbatim>\<open>src/src/thenfail.ts\<close> (class \<^verbatim>\<open>Promise\<close>). JavaScript objects live
  on a heap and are mutated in place; the model threads an explicit heap through every
  operation. A promise is referred to by its index in the heap.

  A value handed to the engine is one of: a primitive, an error object, a reference to a
  promise of this engine, or some other object (or function). For the last kind the only
  thing the engine ever does is read its \<^verbatim>\<open>then\<close> member and, when that is a function,
  call it with two callbacks. What the foreign \<^verbatim>\<open>then\<close> does with them is foreign
  code; it is described here by the calls it makes, in order, to callbacks it has been
  handed (its own, or ones handed out by an earlier call of some \<^verbatim>\<open>then\<close> and kept),
  and by the value it throws at the end, if any. \<open>Own\<close> names the two callbacks of the
  call that is running; \<open>Kept k\<close> names the two callbacks handed out by the \<open>k\<close>-th
  call of a foreign \<^verbatim>\<open>then\<close> that the engine made, counted from 0. A \<^verbatim>\<open>then\<close> that
  keeps its callbacks and returns makes no call here; the later call is \<open>invoke\<close>.
\<close>

datatype which = resolvePromise | rejectPromise

datatype cbref = Own | Kept nat

datatype val =
    Undefined
  | Null
  | Boolean bool
  | Number int
  | String string
  | TypeError string
  | PromiseRef nat
  | Object then_member
and then_member =
    GetterThrows val
  | NotFunction
  | Function "call list" "val option"
and call = Call cbref which val

text \<open>
  A handler is a function of the predecessor's result that returns or throws. Whatever
  else a handler does to promises is a sequence of operations of its own, made before its
  outcome is delivered.
\<close>

datatype outcome = Return val | Throw val

type_synonym handler = "val \<Rightarrow> outcome"

text \<open>An argument of \<^verbatim>\<open>then\<close>: a function, or any other value.\<close>

datatype harg = Fn handler | NotFn val

section \<open>The heap\<close>

datatype State = pending | fulfilled | rejected

text \<open>
  The state a promise hands on to the next runner. Every call of \<^verbatim>\<open>_grab\<close> and
  \<^verbatim>\<open>_relay\<close> in the source passes \<^verbatim>\<open>State.fulfilled\<close>, \<^verbatim>\<open>State.rejected\<close>, or the
  \<^verbatim>\<open>_state\<close> of a promise that was just tested not to be pending.
\<close>

datatype baton = Fulfilled | Rejected

fun State_of :: "baton \<Rightarrow> State" where
  "State_of Fulfilled = fulfilled"
| "State_of Rejected = rejected"

record Promise =
  state :: State
  running :: bool
  valueOrReason :: val
  chainedPromise :: "nat option"
  chainedPromises :: "nat list option"
  handledPromise :: "nat option"
  handledPromises :: "nat list option"
  onPreviousFulfilled :: "handler option"
  onPreviousRejected :: "handler option"

text \<open>
  The two closures that are passed around as \<^verbatim>\<open>callback\<close>: the one \<^verbatim>\<open>resolve\<close>
  builds (it calls \<^verbatim>\<open>this._grab\<close>) and the one \<^verbatim>\<open>_run\<close> builds (it calls
  \<^verbatim>\<open>this._relay\<close> and then resets \<^verbatim>\<open>this._running\<close>).
\<close>

datatype callback = GrabCallback nat | RelayCallback nat

text \<open>
  One activation of \<^verbatim>\<open>_unpack\<close> that called a foreign \<^verbatim>\<open>then\<close>: its \<^verbatim>\<open>this\<close> and
  its \<^verbatim>\<open>callback\<close> variable, which the two closures it handed out share and which
  they set to \<^verbatim>\<open>undefined\<close>.
\<close>

record activation =
  act_this :: nat
  act_callback :: "callback option"

text \<open>A task queued with \<^verbatim>\<open>setImmediate\<close> by \<^verbatim>\<open>_run\<close>: \<^verbatim>\<open>this\<close>, the handler, its argument.\<close>

datatype task = Task nat handler val

record heap =
  promises :: "Promise list"
  immediates :: "task list"
  activations :: "activation list"

definition newPromise :: Promise where
  "newPromise = \<lparr> state = pending, running = False, valueOrReason = Undefined,
     chainedPromise = None, chainedPromises = None,
     handledPromise = None, handledPromises = None,
     onPreviousFulfilled = None, onPreviousRejected = None \<rparr>"

definition empty_heap :: heap where
  "empty_heap = \<lparr> promises = [], immediates = [], activations = [] \<rparr>"

definition get :: "heap \<Rightarrow> nat \<Rightarrow> Promise" where
  "get h p = promises h ! p"

definition allocated :: "heap \<Rightarrow> nat \<Rightarrow> bool" where
  "allocated h p = (p < length (promises h))"

definition update :: "nat \<Rightarrow> (Promise \<Rightarrow> Promise) \<Rightarrow> heap \<Rightarrow> heap" where
  "update p f h = h\<lparr>promises := (promises h)[p := f (promises h ! p)]\<rparr>"

text \<open>\<^verbatim>\<open>new Promise()\<close> without a resolver: a fresh pending promise.\<close>

definition new :: "heap \<Rightarrow> heap \<times> nat" where
  "new h = (h\<lparr>promises := promises h @ [newPromise]\<rparr>, length (promises h))"

section \<open>\<^verbatim>\<open>_run\<close>, \<^verbatim>\<open>_grab\<close> and \<^verbatim>\<open>_relay\<close>\<close>

text \<open>
  \<^verbatim>\<open>_run\<close> sets \<^verbatim>\<open>_running\<close> and queues the handler call; the body of the queued
  closure is \<open>run_task\<close> below.
\<close>

definition run :: "heap \<Rightarrow> nat \<Rightarrow> handler \<Rightarrow> val \<Rightarrow> heap" where
  "run h this handler previousValueOrReason =
     (update this (\<lambda>pr. pr\<lparr>running := True\<rparr>) h)
       \<lparr>immediates := immediates h @ [Task this handler previousValueOrReason]\<rparr>"

definition settle :: "baton \<Rightarrow> val \<Rightarrow> Promise \<Rightarrow> Promise" where
  "settle st v pr = pr\<lparr>state := State_of st, valueOrReason := v\<rparr>"

text \<open>The tail of \<^verbatim>\<open>_relay\<close>: the handler slots and the two pairs of link fields are cleared.\<close>

definition release :: "Promise \<Rightarrow> Promise" where
  "release pr =
     (let pr1 = pr\<lparr>onPreviousFulfilled := None, onPreviousRejected := None\<rparr>;
          pr2 = (if chainedPromise pr1 \<noteq> None then pr1\<lparr>chainedPromise := None\<rparr>
                 else pr1\<lparr>chainedPromises := None\<rparr>)
      in if handledPromise pr2 \<noteq> None then pr2\<lparr>handledPromise := None\<rparr>
         else pr2\<lparr>handledPromises := None\<rparr>)"

definition pending_count :: "heap \<Rightarrow> nat" where
  "pending_count h = length (filter (\<lambda>pr. state pr = pending) (promises h))"

text \<open>
  \<^verbatim>\<open>_grab\<close> and \<^verbatim>\<open>_relay\<close> call each other. The body of \<^verbatim>\<open>_relay\<close> after the
  assignment of state and result is, in order: the block over \<^verbatim>\<open>_chainedPromise\<close> /
  \<^verbatim>\<open>_chainedPromises\<close> (\<open>relay_chained\<close>, its \<^verbatim>\<open>for ... of\<close> loop is \<open>grab_each\<close>), the
  block over \<^verbatim>\<open>_handledPromise\<close> / \<^verbatim>\<open>_handledPromises\<close> (\<open>relay_handled\<close>, its loop is
  \<open>relay_each\<close>), and the clearing of the fields (\<open>release\<close>). Each block reads the fields
  of \<^verbatim>\<open>this\<close> from the heap as it is when the block starts. The arrays do not change
  while a loop runs over them: \<^verbatim>\<open>then\<close> and \<^verbatim>\<open>_unpack\<close> push only onto a promise that
  is pending, and \<^verbatim>\<open>this\<close> is settled by then. A reference to a promise that was never
  allocated cannot exist in the source; the model leaves the heap as it is there.
\<close>

function grab :: "heap \<Rightarrow> nat \<Rightarrow> baton \<Rightarrow> val \<Rightarrow> heap"
  and relay :: "heap \<Rightarrow> nat \<Rightarrow> baton \<Rightarrow> val \<Rightarrow> heap"
  and relay_chained :: "heap \<Rightarrow> nat \<Rightarrow> baton \<Rightarrow> val \<Rightarrow> heap"
  and relay_handled :: "heap \<Rightarrow> nat \<Rightarrow> baton \<Rightarrow> val \<Rightarrow> heap"
  and grab_each :: "heap \<Rightarrow> nat list \<Rightarrow> baton \<Rightarrow> val \<Rightarrow> heap"
  and relay_each :: "heap \<Rightarrow> nat list \<Rightarrow> baton \<Rightarrow> val \<Rightarrow> heap"
where
  "grab h this previousState previousValueOrReason =
     (if \<not> allocated h this then h
      else if state (get h this) \<noteq> pending then h
      else case (case previousState of
                   Fulfilled \<Rightarrow> onPreviousFulfilled (get h this)
                 | Rejected \<Rightarrow> onPreviousRejected (get h this)) of
             Some handler \<Rightarrow> run h this handler previousValueOrReason
           | None \<Rightarrow> relay h this previousState previousValueOrReason)"
| "relay h this st v =
     (if \<not> allocated h this then h
      else if state (get h this) \<noteq> pending then h
      else update this release
             (relay_handled (relay_chained (update this (settle st v) h) this st v) this st v))"
| "relay_chained h this st v =
     (case chainedPromise (get h this) of
        Some promise \<Rightarrow> grab h promise st v
      | None \<Rightarrow>
          (case chainedPromises (get h this) of
             Some ps \<Rightarrow> grab_each h ps st v
           | None \<Rightarrow> h))"
| "relay_handled h this st v =
     (case handledPromise (get h this) of
        Some promise \<Rightarrow> relay h promise st v
      | None \<Rightarrow>
          (case handledPromises (get h this) of
             Some ps \<Rightarrow> relay_each h ps st v
           | None \<Rightarrow> h))"
| "grab_each h [] st v = h"
| "grab_each h (promise # ps) st v = grab_each (grab h promise st v) ps st v"
| "relay_each h [] st v = h"
| "relay_each h (promise # ps) st v = relay_each (relay h promise st v) ps st v"
  by pat_completeness auto

text \<open>
  Termination: a call of \<^verbatim>\<open>_relay\<close> that does anything turns one pending promise into a
  settled one before it calls on, so the number of pending promises of the heap bounds the
  depth of the calls, also when the links form a cycle.
\<close>

lemma filter_update_less:
  "i < length xs \<Longrightarrow> P (xs ! i) \<Longrightarrow> \<not> P y \<Longrightarrow>
   length (filter P (xs[i := y])) < length (filter P xs)"
proof (induction xs arbitrary: i)
  case Nil
  then show ?case by simp
next
  case (Cons x xs)
  then show ?case by (cases i) auto
qed

lemma filter_update_same:
  "P y = P (xs ! i) \<Longrightarrow>
   length (filter P (xs[i := y])) = length (filter P xs)"
proof (induction xs arbitrary: i)
  case Nil
  then show ?case by simp
next
  case (Cons x xs)
  then show ?case by (cases i) auto
qed

lemma length_update [simp]: "length (promises (update p f h)) = length (promises h)"
  by (simp add: update_def)

lemma allocated_update [simp]: "allocated (update p f h) q = allocated h q"
  by (simp add: allocated_def)

lemma get_update:
  "get (update p f h) q = (if q = p \<and> allocated h p then f (get h p) else get h q)"
  by (auto simp: get_def update_def allocated_def list_update_beyond)

lemma pending_count_settle:
  "allocated h p \<Longrightarrow> state (get h p) = pending \<Longrightarrow>
   pending_count (update p (settle st v) h) < pending_count h"
  unfolding pending_count_def update_def allocated_def get_def
  by (cases st) (simp_all add: filter_update_less settle_def)

lemma state_release [simp]: "state (release pr) = state pr"
  by (simp add: release_def Let_def)

lemma pending_count_same:
  "(\<And>pr. state (f pr) = state pr) \<Longrightarrow> pending_count (update p f h) = pending_count h"
  unfolding pending_count_def update_def
  by (simp add: filter_update_same)

lemma length_run [simp]: "length (promises (run h p f v)) = length (promises h)"
  by (simp add: run_def)

lemma pending_count_run [simp]: "pending_count (run h p f v) = pending_count h"
proof -
  have "pending_count (run h p f v) = pending_count (update p (\<lambda>pr. pr\<lparr>running := True\<rparr>) h)"
    by (simp add: run_def pending_count_def)
  then show ?thesis by (simp add: pending_count_same)
qed

definition shrinks :: "heap \<Rightarrow> heap \<Rightarrow> bool" where
  "shrinks h h' = (length (promises h') = length (promises h) \<and> pending_count h' \<le> pending_count h)"

lemma shrinks_refl [simp]: "shrinks h h"
  by (simp add: shrinks_def)

lemma shrinks_trans: "shrinks h h1 \<Longrightarrow> shrinks h1 h2 \<Longrightarrow> shrinks h h2"
  by (auto simp: shrinks_def)

lemma shrinks_partial:
  shows "grab_relay_relay_chained_relay_handled_grab_each_relay_each_dom (Inl (Inl (h, this, st, v))) \<Longrightarrow> shrinks h (grab h this st v)"
    and "grab_relay_relay_chained_relay_handled_grab_each_relay_each_dom (Inl (Inr (Inl (h, this, st, v)))) \<Longrightarrow> shrinks h (relay h this st v)"
    and "grab_relay_relay_chained_relay_handled_grab_each_relay_each_dom (Inl (Inr (Inr (h, this, st, v)))) \<Longrightarrow> shrinks h (relay_chained h this st v)"
    and "grab_relay_relay_chained_relay_handled_grab_each_relay_each_dom (Inr (Inl (h, this, st, v))) \<Longrightarrow> shrinks h (relay_handled h this st v)"
    and "grab_relay_relay_chained_relay_handled_grab_each_relay_each_dom (Inr (Inr (Inl (h, ps, st, v)))) \<Longrightarrow> shrinks h (grab_each h ps st v)"
    and "grab_relay_relay_chained_relay_handled_grab_each_relay_each_dom (Inr (Inr (Inr (h, ps, st, v)))) \<Longrightarrow> shrinks h (relay_each h ps st v)"
proof (induct rule: grab_relay_relay_chained_relay_handled_grab_each_relay_each.pinduct)
  case (1 h this previousState previousValueOrReason)
  then show ?case
    by (auto simp: grab.psimps shrinks_def split: option.splits)
next
  case (2 h this st v)
  show ?case
  proof (cases "allocated h this \<and> state (get h this) = pending")
    case False
    then show ?thesis using 2(1) by (auto simp: relay.psimps)
  next
    case True
    let ?h1 = "update this (settle st v) h"
    let ?h2 = "relay_chained ?h1 this st v"
    let ?h3 = "relay_handled ?h2 this st v"
    have r: "relay h this st v = update this release ?h3"
      using True 2(1) by (simp add: relay.psimps)
    have s1: "shrinks h ?h1"
      using True pending_count_settle[of h this st v] by (simp add: shrinks_def)
    have s2: "shrinks ?h1 ?h2" using True 2(2) by simp
    have s3: "shrinks ?h2 ?h3" using True 2(3) by simp
    have s4: "shrinks ?h3 (update this release ?h3)"
      by (simp add: shrinks_def pending_count_same)
    show ?thesis unfolding r
      using s1 s2 s3 s4 by (blast intro: shrinks_trans)
  qed
next
  case (3 h this st v)
  then show ?case by (auto simp: relay_chained.psimps split: option.splits)
next
  case (4 h this st v)
  then show ?case by (auto simp: relay_handled.psimps split: option.splits)
next
  case (5 h st v)
  then show ?case by (simp add: grab_each.psimps)
next
  case (6 h promise ps st v)
  then show ?case by (auto simp: grab_each.psimps intro: shrinks_trans)
next
  case (7 h st v)
  then show ?case by (simp add: relay_each.psimps)
next
  case (8 h promise ps st v)
  then show ?case by (auto simp: relay_each.psimps intro: shrinks_trans)
qed

termination grab
proof (relation "inv_image (less_than <*lex*> less_than <*lex*> less_than)
    (\<lambda>x. case x of
       Inl (Inl (h, this, st, v)) \<Rightarrow> (pending_count h, 1::nat, 0::nat)
     | Inl (Inr (Inl (h, this, st, v))) \<Rightarrow> (pending_count h, 0, 0)
     | Inl (Inr (Inr (h, this, st, v))) \<Rightarrow> (pending_count h, 3, 0)
     | Inr (Inl (h, this, st, v)) \<Rightarrow> (pending_count h, 3, 0)
     | Inr (Inr (Inl (h, ps, st, v))) \<Rightarrow> (pending_count h, 2, length ps)
     | Inr (Inr (Inr (h, ps, st, v))) \<Rightarrow> (pending_count h, 2, length ps))", goal_cases)
  case 1
  then show ?case by (intro wf_inv_image wf_lex_prod wf_less_than)
next
  case (2 h this previousState previousValueOrReason)
  then show ?case by simp
next
  case (3 h this st v)
  then show ?case using pending_count_settle[of h this st v] by simp
next
  case (4 h this st v)
  then show ?case using pending_count_settle[of h this st v]
      shrinks_partial(3)[of "update this (settle st v) h" this st v]
    by (auto simp: shrinks_def)
next
  case (5 h this st v x2)
  then show ?case by simp
next
  case (6 h this st v x2)
  then show ?case by simp
next
  case (7 h this st v x2)
  then show ?case by simp
next
  case (8 h this st v x2)
  then show ?case by simp
next
  case (9 h promise ps st v)
  then show ?case by simp
next
  case (10 h promise ps st v)
  then show ?case using shrinks_partial(1)[of h promise st v] by (auto simp: shrinks_def)
next
  case (11 h promise ps st v)
  then show ?case by simp
next
  case (12 h promise ps st v)
  then show ?case using shrinks_partial(2)[of h promise st v] by (auto simp: shrinks_def)
qed

section \<open>\<^verbatim>\<open>_unpack\<close>: the resolve process\<close>

fun apply_callback :: "heap \<Rightarrow> callback \<Rightarrow> baton \<Rightarrow> val \<Rightarrow> heap" where
  "apply_callback h (GrabCallback this) st v = grab h this st v"
| "apply_callback h (RelayCallback this) st v =
     update this (\<lambda>pr. pr\<lparr>running := False\<rparr>) (relay h this st v)"

text \<open>
  The registration of \<^verbatim>\<open>this\<close> on a pending \<^verbatim>\<open>value\<close> (one slot for the first
  adopter, an array from the second on), and the same for the chain in \<^verbatim>\<open>then\<close>.
\<close>

definition add_handled :: "nat \<Rightarrow> Promise \<Rightarrow> Promise" where
  "add_handled this pr =
     (case handledPromise pr of
        Some first \<Rightarrow> pr\<lparr>handledPromises := Some [first, this], handledPromise := None\<rparr>
      | None \<Rightarrow>
          (case handledPromises pr of
             Some ps \<Rightarrow> pr\<lparr>handledPromises := Some (ps @ [this])\<rparr>
           | None \<Rightarrow> pr\<lparr>handledPromise := Some this\<rparr>))"

definition add_chained :: "nat \<Rightarrow> Promise \<Rightarrow> Promise" where
  "add_chained promise pr =
     (case chainedPromise pr of
        Some first \<Rightarrow> pr\<lparr>chainedPromises := Some [first, promise], chainedPromise := None\<rparr>
      | None \<Rightarrow>
          (case chainedPromises pr of
             Some ps \<Rightarrow> pr\<lparr>chainedPromises := Some (ps @ [promise])\<rparr>
           | None \<Rightarrow> pr\<lparr>chainedPromise := Some promise\<rparr>))"

definition activate :: "heap \<Rightarrow> nat \<Rightarrow> callback \<Rightarrow> heap" where
  "activate h this cb =
     h\<lparr>activations := activations h @ [\<lparr>act_this = this, act_callback = Some cb\<rparr>]\<rparr>"

definition clear_callback :: "nat \<Rightarrow> heap \<Rightarrow> heap" where
  "clear_callback a h =
     h\<lparr>activations := (activations h)[a := (activations h ! a)\<lparr>act_callback := None\<rparr>]\<rparr>"

definition live_callback :: "heap \<Rightarrow> nat \<Rightarrow> callback option" where
  "live_callback h a =
     (if a < length (activations h) then act_callback (activations h ! a) else None)"

text \<open>
  \<open>unpack h this value callback\<close> is \<^verbatim>\<open>this._unpack(value, callback)\<close>. Its cases follow
  the source: \<^verbatim>\<open>this === value\<close>; \<^verbatim>\<open>value instanceof Promise\<close>, pending or not; a
  truthy object or function, whose \<^verbatim>\<open>then\<close> is read inside the \<^verbatim>\<open>try\<close> (the getter
  throws: the \<^verbatim>\<open>catch\<close> block; not a function: the \<^verbatim>\<open>switch\<close> falls through to
  \<^verbatim>\<open>default\<close>; a function: it is called with the two closures); and every other value,
  falsy or of another \<^verbatim>\<open>typeof\<close>, for which \<^verbatim>\<open>callback(State.fulfilled, value)\<close> runs.

  \<open>call_then h a cs\<close> runs the calls a foreign \<^verbatim>\<open>then\<close> makes, where \<open>a\<close> is the
  activation whose closures it was handed. \<open>invoke h a w v\<close> is a call of one of the two
  closures of activation \<open>a\<close>: both test the shared \<^verbatim>\<open>callback\<close> variable, and both set
  it to \<^verbatim>\<open>undefined\<close> after their work is done.
\<close>

fun unpack :: "heap \<Rightarrow> nat \<Rightarrow> val \<Rightarrow> callback \<Rightarrow> heap"
  and call_then :: "heap \<Rightarrow> nat \<Rightarrow> call list \<Rightarrow> heap"
  and invoke :: "heap \<Rightarrow> nat \<Rightarrow> which \<Rightarrow> val \<Rightarrow> heap"
where
  "unpack h this (PromiseRef p) cb =
     (if p = this then
        apply_callback h cb Rejected (TypeError ''The promise should not return itself'')
      else if \<not> allocated h p then h
      else case state (get h p) of
             pending \<Rightarrow> update p (add_handled this) h
           | fulfilled \<Rightarrow> apply_callback h cb Fulfilled (valueOrReason (get h p))
           | rejected \<Rightarrow> apply_callback h cb Rejected (valueOrReason (get h p)))"
| "unpack h this (Object (GetterThrows e)) cb = apply_callback h cb Rejected e"
| "unpack h this (Object NotFunction) cb = apply_callback h cb Fulfilled (Object NotFunction)"
| "unpack h this (Object (Function calls thrown)) cb =
     (let a = length (activations h);
          h1 = call_then (activate h this cb) a calls
      in case thrown of
           None \<Rightarrow> h1
         | Some e \<Rightarrow>
             (case live_callback h1 a of
                Some cb' \<Rightarrow> clear_callback a (apply_callback h1 cb' Rejected e)
              | None \<Rightarrow> h1))"
| "unpack h this (TypeError m) cb = apply_callback h cb Fulfilled (TypeError m)"
| "unpack h this Undefined cb = apply_callback h cb Fulfilled Undefined"
| "unpack h this Null cb = apply_callback h cb Fulfilled Null"
| "unpack h this (Boolean b) cb = apply_callback h cb Fulfilled (Boolean b)"
| "unpack h this (Number n) cb = apply_callback h cb Fulfilled (Number n)"
| "unpack h this (String s) cb = apply_callback h cb Fulfilled (String s)"
| "call_then h a [] = h"
| "call_then h a (Call r w v # cs) =
     call_then (invoke h (case r of Own \<Rightarrow> a | Kept k \<Rightarrow> k) w v) a cs"
| "invoke h a resolvePromise v =
     (case live_callback h a of
        Some cb \<Rightarrow> clear_callback a (unpack h (act_this (activations h ! a)) v cb)
      | None \<Rightarrow> h)"
| "invoke h a rejectPromise reason =
     (case live_callback h a of
        Some cb \<Rightarrow> clear_callback a (apply_callback h cb Rejected reason)
      | None \<Rightarrow> h)"

section \<open>Queued handler calls\<close>

text \<open>The closure \<^verbatim>\<open>_run\<close> hands to \<^verbatim>\<open>setImmediate\<close>, and the queue taking its next task.\<close>

fun run_task :: "heap \<Rightarrow> task \<Rightarrow> heap" where
  "run_task h (Task this handler previousValueOrReason) =
     (case handler previousValueOrReason of
        Throw error \<Rightarrow>
          update this (\<lambda>pr. pr\<lparr>running := False\<rparr>) (relay h this Rejected error)
      | Return ret \<Rightarrow> unpack h this ret (RelayCallback this))"

definition run_next :: "heap \<Rightarrow> heap" where
  "run_next h =
     (case immediates h of
        [] \<Rightarrow> h
      | t # ts \<Rightarrow> run_task (h\<lparr>immediates := ts\<rparr>) t)"

section \<open>The public operations\<close>

definition set_handlers :: "harg \<Rightarrow> harg \<Rightarrow> Promise \<Rightarrow> Promise" where
  "set_handlers onfulfilled onrejected pr =
     (let pr1 = (case onfulfilled of
                   Fn f \<Rightarrow> pr\<lparr>onPreviousFulfilled := Some f\<rparr>
                 | NotFn _ \<Rightarrow> pr)
      in case onrejected of
           Fn f \<Rightarrow> pr1\<lparr>onPreviousRejected := Some f\<rparr>
         | NotFn _ \<Rightarrow> pr1)"

definition then' :: "heap \<Rightarrow> nat \<Rightarrow> harg \<Rightarrow> harg \<Rightarrow> heap \<times> nat" where
  "then' h this onfulfilled onrejected =
     (let (h0, promise) = new h;
          h1 = update promise (set_handlers onfulfilled onrejected) h0
      in (case state (get h1 this) of
            pending \<Rightarrow> update this (add_chained promise) h1
          | fulfilled \<Rightarrow> grab h1 promise Fulfilled (valueOrReason (get h1 this))
          | rejected \<Rightarrow> grab h1 promise Rejected (valueOrReason (get h1 this)),
          promise))"

definition resolve :: "heap \<Rightarrow> nat \<Rightarrow> val \<Rightarrow> heap" where
  "resolve h this value = unpack h this value (GrabCallback this)"

definition reject :: "heap \<Rightarrow> nat \<Rightarrow> val \<Rightarrow> heap" where
  "reject h this reason = grab h this Rejected reason"

text \<open>The static \<^verbatim>\<open>Promise.resolve\<close> and \<^verbatim>\<open>Promise.reject\<close>.\<close>

definition Promise_resolve :: "heap \<Rightarrow> val \<Rightarrow> heap \<times> nat" where
  "Promise_resolve h value =
     (case value of
        PromiseRef p \<Rightarrow> (h, p)
      | _ \<Rightarrow> (let (h0, promise) = new h in (resolve h0 promise value, promise)))"

definition Promise_reject :: "heap \<Rightarrow> val \<Rightarrow> heap \<times> nat" where
  "Promise_reject h reason = (let (h0, promise) = new h in (reject h0 promise reason, promise))"

section \<open>What a relay changes\<close>

text \<open>
  One call of \<^verbatim>\<open>_relay\<close> or \<^verbatim>\<open>_grab\<close> with state \<open>st\<close> and result \<open>v\<close>, with
  everything it calls, does this to each promise: nothing; or, if the promise was pending,
  it marks it running (its handler was queued) or settles it, and then with exactly
  \<open>st\<close> and \<open>v\<close>. It allocates nothing, only appends to the task queue, and leaves the
  activations alone.
\<close>

definition moved :: "baton \<Rightarrow> val \<Rightarrow> Promise \<Rightarrow> Promise \<Rightarrow> bool" where
  "moved st v pr pr' \<longleftrightarrow>
     pr' = pr \<or>
     (state pr = pending \<and>
        (pr' = pr\<lparr>running := True\<rparr> \<or> (state pr' = State_of st \<and> valueOrReason pr' = v)))"

definition cascade :: "baton \<Rightarrow> val \<Rightarrow> heap \<Rightarrow> heap \<Rightarrow> bool" where
  "cascade st v h h' \<longleftrightarrow>
     length (promises h') = length (promises h) \<and>
     activations h' = activations h \<and>
     (\<exists>ts. immediates h' = immediates h @ ts) \<and>
     (\<forall>q. allocated h q \<longrightarrow> moved st v (get h q) (get h' q))"

lemma activations_update [simp]: "activations (update p f h) = activations h"
  by (simp add: update_def)

lemma immediates_update [simp]: "immediates (update p f h) = immediates h"
  by (simp add: update_def)

lemma get_run:
  "get (run h p f x) q = (if q = p \<and> allocated h p then (get h p)\<lparr>running := True\<rparr> else get h q)"
  by (auto simp: run_def get_def update_def allocated_def list_update_beyond)

lemma immediates_run [simp]: "immediates (run h p f x) = immediates h @ [Task p f x]"
  by (simp add: run_def)

lemma activations_run [simp]: "activations (run h p f x) = activations h"
  by (simp add: run_def)

lemma State_of_not_pending [simp]: "State_of st \<noteq> pending"
  by (cases st) simp_all

lemma moved_refl [simp]: "moved st v pr pr"
  by (simp add: moved_def)

lemma moved_trans: "moved st v a b \<Longrightarrow> moved st v b c \<Longrightarrow> moved st v a c"
  unfolding moved_def by auto

lemma cascade_refl [simp]: "cascade st v h h"
  by (simp add: cascade_def)

lemma cascade_trans: "cascade st v h h1 \<Longrightarrow> cascade st v h1 h2 \<Longrightarrow> cascade st v h h2"
  unfolding cascade_def allocated_def
  by (auto intro: moved_trans)

lemma cascade_settle:
  "state (get h p) = pending \<Longrightarrow> cascade st v h (update p (settle st v) h)"
  unfolding cascade_def
  by (auto simp: get_update moved_def settle_def)

lemma cascade_run:
  "state (get h p) = pending \<Longrightarrow> cascade st v h (run h p f x)"
  unfolding cascade_def
  by (auto simp: moved_def get_run)

lemma valueOrReason_release [simp]: "valueOrReason (release pr) = valueOrReason pr"
  by (simp add: release_def Let_def)

lemma cascade_release:
  assumes "cascade st v h h3" and "state (get h p) = pending"
    and "state (get h3 p) = State_of st" and "valueOrReason (get h3 p) = v"
  shows "cascade st v h (update p release h3)"
  using assms unfolding cascade_def
  by (auto simp: get_update moved_def)

lemma cascade_settled_same:
  "cascade st v h h' \<Longrightarrow> allocated h q \<Longrightarrow> state (get h q) \<noteq> pending \<Longrightarrow> get h' q = get h q"
  unfolding cascade_def moved_def by auto

lemma cascade_allocated: "cascade st v h h' \<Longrightarrow> allocated h' q = allocated h q"
  by (simp add: cascade_def allocated_def)

lemma cascade_all:
  shows "cascade st v h (grab h this st v)"
    and "cascade st v h (relay h this st v)"
    and "cascade st v h (relay_chained h this st v)"
    and "cascade st v h (relay_handled h this st v)"
    and "cascade st v h (grab_each h ps st v)"
    and "cascade st v h (relay_each h ps st v)"
proof (induct h this st v and h this st v and h this st v and h this st v and h ps st v and h ps st v
    rule: grab_relay_relay_chained_relay_handled_grab_each_relay_each.induct)
  case (1 h this previousState previousValueOrReason)
  then show ?case by (auto simp: cascade_run split: option.splits)
next
  case (2 h this st v)
  show ?case
  proof (cases "allocated h this \<and> state (get h this) = pending")
    case False
    then show ?thesis by auto
  next
    case True
    let ?h1 = "update this (settle st v) h"
    let ?h2 = "relay_chained ?h1 this st v"
    let ?h3 = "relay_handled ?h2 this st v"
    have c1: "cascade st v h ?h1" using True by (simp add: cascade_settle)
    have c13: "cascade st v ?h1 ?h3"
      using True 2 by (auto intro: cascade_trans)
    have "get ?h3 this = get ?h1 this"
      using c13 True by (intro cascade_settled_same[where st=st and v=v]) (auto simp: get_update settle_def)
    then have s: "state (get ?h3 this) = State_of st" "valueOrReason (get ?h3 this) = v"
      using True by (simp_all add: get_update settle_def)
    have "cascade st v h (update this release ?h3)"
      using cascade_trans[OF c1 c13] True s by (intro cascade_release) auto
    then show ?thesis using True by simp
  qed
next
  case (3 h this st v)
  then show ?case by (auto split: option.splits)
next
  case (4 h this st v)
  then show ?case by (auto split: option.splits)
next
  case (5 h st v)
  then show ?case by simp
next
  case (6 h promise ps st v)
  then show ?case by (auto intro: cascade_trans)
next
  case (7 h st v)
  then show ?case by simp
next
  case (8 h promise ps st v)
  then show ?case by (auto intro: cascade_trans)
qed

section \<open>Settled promises keep their state and result\<close>

lemma relay_settled [simp]:
  "state (get h p) \<noteq> pending \<Longrightarrow> relay h p st v = h"
  by simp

lemma grab_settled [simp]:
  "state (get h p) \<noteq> pending \<Longrightarrow> grab h p st v = h"
  by simp

declare grab.simps [simp del] relay.simps [simp del]
  relay_chained.simps [simp del] relay_handled.simps [simp del]

lemma relay_pending:
  assumes "allocated h p" and "state (get h p) = pending"
  shows "state (get (relay h p st v) p) = State_of st"
    and "valueOrReason (get (relay h p st v) p) = v"
proof -
  let ?h1 = "update p (settle st v) h"
  let ?h3 = "relay_handled (relay_chained ?h1 p st v) p st v"
  have c13: "cascade st v ?h1 ?h3"
    by (blast intro: cascade_trans cascade_all)
  have "get ?h3 p = get ?h1 p"
    using c13 assms by (intro cascade_settled_same[where st=st and v=v]) (auto simp: get_update settle_def)
  then have "get (relay h p st v) p = release (settle st v (get h p))"
    using assms cascade_allocated[OF c13, of p] by (simp add: get_update relay.simps)
  then show "state (get (relay h p st v) p) = State_of st"
    and "valueOrReason (get (relay h p st v) p) = v"
    by (simp_all add: settle_def)
qed

definition kept :: "heap \<Rightarrow> heap \<Rightarrow> bool" where
  "kept h h' \<longleftrightarrow>
     length (promises h) \<le> length (promises h') \<and>
     (\<forall>q. allocated h q \<longrightarrow> state (get h q) \<noteq> pending \<longrightarrow>
        state (get h' q) = state (get h q) \<and> valueOrReason (get h' q) = valueOrReason (get h q))"

lemma kept_refl [simp]: "kept h h"
  by (simp add: kept_def)

lemma kept_trans: "kept h h1 \<Longrightarrow> kept h1 h2 \<Longrightarrow> kept h h2"
  unfolding kept_def allocated_def by fastforce

lemma cascade_kept: "cascade st v h h' \<Longrightarrow> kept h h'"
  unfolding kept_def cascade_def moved_def by auto

lemma kept_update:
  "(\<And>pr. state pr \<noteq> pending \<Longrightarrow> state (f pr) = state pr \<and> valueOrReason (f pr) = valueOrReason pr)
   \<Longrightarrow> kept h (update p f h)"
  unfolding kept_def by (auto simp: get_update)

lemma kept_promises: "promises h' = promises h \<Longrightarrow> kept h h'"
  by (simp add: kept_def get_def allocated_def)

lemma kept_grab [simp]: "kept h (grab h p st v)"
  by (blast intro: cascade_kept cascade_all)

lemma kept_relay [simp]: "kept h (relay h p st v)"
  by (blast intro: cascade_kept cascade_all)

lemma kept_apply_callback [simp]: "kept h (apply_callback h cb st v)"
proof (cases cb)
  case (GrabCallback p)
  then show ?thesis by simp
next
  case (RelayCallback p)
  have "kept (relay h p st v) (update p (\<lambda>pr. pr\<lparr>running := False\<rparr>) (relay h p st v))"
    by (rule kept_update) simp
  then show ?thesis using RelayCallback by (auto intro: kept_trans[OF kept_relay])
qed

lemma kept_activate [simp]: "kept h (activate h this cb)"
  by (simp add: kept_promises activate_def)

lemma kept_clear_callback [simp]: "kept h (clear_callback a h)"
  by (simp add: kept_promises clear_callback_def)

lemma kept_unpack_all:
  shows "kept h (unpack h this x cb)"
    and "kept h (call_then h a cs)"
    and "kept h (invoke h a w x)"
proof (induct h this x cb and h a cs and h a w x rule: unpack_call_then_invoke.induct)
  case (1 h this p cb)
  have "kept h (update p (add_handled this) h)"
    by (rule kept_update) (auto simp: add_handled_def split: option.splits)
  then show ?case by (auto split: State.splits)
next
  case (4 h this calls thrown cb)
  let ?h1 = "call_then (activate h this cb) (length (activations h)) calls"
  have k1: "kept h ?h1"
    using 4 by (blast intro: kept_trans kept_activate)
  show ?case
  proof (cases thrown)
    case None
    then show ?thesis using k1 by (simp add: Let_def)
  next
    case (Some e)
    show ?thesis
    proof (cases "live_callback ?h1 (length (activations h))")
      case None
      then show ?thesis using k1 Some by (simp add: Let_def)
    next
      case (Some cb')
      have "kept ?h1 (clear_callback (length (activations h)) (apply_callback ?h1 cb' Rejected e))"
        by (blast intro: kept_trans kept_apply_callback kept_clear_callback)
      then show ?thesis using k1 Some \<open>thrown = Some e\<close>
        by (auto simp: Let_def intro: kept_trans)
    qed
  qed
next
  case (12 h a r w v cs)
  then show ?case by (auto intro: kept_trans)
next
  case (13 h a v)
  show ?case
  proof (cases "live_callback h a")
    case None
    then show ?thesis by simp
  next
    case (Some cb)
    then show ?thesis using 13[OF Some]
      by (auto intro: kept_trans kept_clear_callback)
  qed
next
  case (14 h a reason)
  show ?case
  proof (cases "live_callback h a")
    case None
    then show ?thesis by simp
  next
    case (Some cb)
    have "kept h (clear_callback a (apply_callback h cb Rejected reason))"
      by (blast intro: kept_trans kept_apply_callback kept_clear_callback)
    then show ?thesis using Some by simp
  qed
qed simp_all

text \<open>
  One operation on the engine: \<^verbatim>\<open>new Promise()\<close>; \<^verbatim>\<open>then\<close>, \<^verbatim>\<open>resolve\<close> or
  \<^verbatim>\<open>reject\<close> on a promise that exists; the task queue running its next task; foreign
  code calling a callback it was handed.
\<close>

inductive step :: "heap \<Rightarrow> heap \<Rightarrow> bool" where
  step_new: "step h (fst (new h))"
| step_then: "allocated h p \<Longrightarrow> step h (fst (then' h p onfulfilled onrejected))"
| step_resolve: "allocated h p \<Longrightarrow> step h (resolve h p x)"
| step_reject: "allocated h p \<Longrightarrow> step h (reject h p reason)"
| step_task: "step h (run_next h)"
| step_foreign: "step h (invoke h a w x)"

lemma kept_new [simp]: "kept h (fst (new h))"
  by (auto simp: kept_def new_def get_def allocated_def nth_append)

lemma kept_run_task [simp]: "kept h (run_task h t)"
proof (cases t)
  case (Task this handler x)
  have "kept h (update this (\<lambda>pr. pr\<lparr>running := False\<rparr>) (relay h this Rejected e))" for e
    by (rule kept_trans[OF kept_relay]) (rule kept_update, simp)
  then show ?thesis using Task
    by (auto split: outcome.splits simp: kept_unpack_all)
qed

lemma kept_run_next [simp]: "kept h (run_next h)"
proof (cases "immediates h")
  case Nil
  then show ?thesis by (simp add: run_next_def)
next
  case (Cons t ts)
  have "kept h (h\<lparr>immediates := ts\<rparr>)" by (simp add: kept_promises)
  then show ?thesis using Cons
    by (auto simp: run_next_def intro: kept_trans kept_run_task)
qed

lemma kept_then [simp]: "kept h (fst (then' h p onfulfilled onrejected))"
proof -
  obtain h0 promise where n: "new h = (h0, promise)" by (cases "new h")
  let ?h1 = "update promise (set_handlers onfulfilled onrejected) h0"
  have k0: "kept h h0" using kept_new[of h] n by simp
  have k1: "kept h0 ?h1"
    by (rule kept_update) (auto simp: set_handlers_def Let_def split: harg.splits)
  have k2: "kept ?h1 (update p (add_chained promise) ?h1)"
    by (rule kept_update) (auto simp: add_chained_def split: option.splits)
  have "kept ?h1 (fst (then' h p onfulfilled onrejected))"
    using n k2 by (auto simp: then'_def Let_def split: State.splits)
  then show ?thesis using k0 k1 by (blast intro: kept_trans)
qed

lemma step_kept: "step h h' \<Longrightarrow> kept h h'"
  by (induction rule: step.induct)
     (simp_all add: resolve_def reject_def kept_unpack_all)

lemma steps_kept: "step\<^sup>*\<^sup>* h h' \<Longrightarrow> kept h h'"
  by (induction rule: rtranclp_induct) (auto intro: kept_trans step_kept)

lemma kept_allocated: "kept h h' \<Longrightarrow> allocated h p \<Longrightarrow> allocated h' p"
  by (auto simp: kept_def allocated_def)

definition settled_example :: heap where
  "settled_example = resolve (fst (new empty_heap)) 0 (Number 1)"

lemma settled_example_eval:
  "allocated settled_example 0" "state (get settled_example 0) = fulfilled"
  "valueOrReason (get settled_example 0) = Number 1"
  by (simp_all add: settled_example_def new_def empty_heap_def resolve_def allocated_def
      get_def update_def settle_def release_def newPromise_def grab.simps relay.simps
      relay_chained.simps relay_handled.simps)

text \<open>
  C1. Settlement happens at most once and is monotonic. Let \<open>p\<close> be settled in \<open>h\<close>, and
  let \<open>h'\<close> be any heap reached from \<open>h\<close> by further operations (new promises, \<^verbatim>\<open>then\<close>,
  \<^verbatim>\<open>resolve\<close>, \<^verbatim>\<open>reject\<close>, queued handler calls, calls of callbacks by foreign code). A
  later \<^verbatim>\<open>resolve\<close> or \<^verbatim>\<open>reject\<close> on \<open>p\<close> leaves its state and its result exactly as the
  settlement set them. Every operation is a total function that returns a heap: none of
  them has an error result.
\<close>

theorem settlement_at_most_once:
  assumes "allocated h p" and "state (get h p) \<noteq> pending" and "step\<^sup>*\<^sup>* h h'"
  shows "state (get (resolve h' p x) p) = state (get h p) \<and>
         valueOrReason (get (resolve h' p x) p) = valueOrReason (get h p) \<and>
         state (get (reject h' p reason) p) = state (get h p) \<and>
         valueOrReason (get (reject h' p reason) p) = valueOrReason (get h p)"
proof -
  have "allocated h' p"
    using steps_kept[OF assms(3)] assms(1) by (rule kept_allocated)
  then have "step h' (resolve h' p x)" "step h' (reject h' p reason)"
    by (simp_all add: step_resolve step_reject)
  then have "step\<^sup>*\<^sup>* h (resolve h' p x)" "step\<^sup>*\<^sup>* h (reject h' p reason)"
    using assms(3) by (auto intro: rtranclp.rtrancl_into_rtrancl)
  then have "kept h (resolve h' p x)" "kept h (reject h' p reason)"
    by (auto intro: steps_kept)
  then show ?thesis using assms(1,2) by (simp add: kept_def)
qed

theorem settlement_at_most_once_witness:
  "allocated settled_example 0 \<and> state (get settled_example 0) \<noteq> pending \<and>
   step\<^sup>*\<^sup>* settled_example (reject settled_example 0 (String ''late'')) \<and>
   state (get (resolve (reject settled_example 0 (String ''late'')) 0 (Number 2)) 0) = fulfilled \<and>
   valueOrReason (get (resolve (reject settled_example 0 (String ''late'')) 0 (Number 2)) 0) = Number 1 \<and>
   state (get (reject (reject settled_example 0 (String ''late'')) 0 (String ''again'')) 0) = fulfilled \<and>
   valueOrReason (get (reject (reject settled_example 0 (String ''late'')) 0 (String ''again'')) 0) = Number 1"
proof -
  have s: "step\<^sup>*\<^sup>* settled_example (reject settled_example 0 (String ''late''))"
    by (rule r_into_rtranclp) (rule step_reject, rule settled_example_eval)
  show ?thesis
    using settlement_at_most_once[of settled_example 0 "reject settled_example 0 (String ''late'')"
        "Number 2" "String ''again''"] s settled_example_eval
    by simp
qed

section \<open>Attaching handlers\<close>

definition handler_for :: "baton \<Rightarrow> Promise \<Rightarrow> handler option" where
  "handler_for st pr =
     (case st of Fulfilled \<Rightarrow> onPreviousFulfilled pr | Rejected \<Rightarrow> onPreviousRejected pr)"

definition chained :: "Promise \<Rightarrow> nat list" where
  "chained pr =
     (case chainedPromise pr of
        Some promise \<Rightarrow> [promise]
      | None \<Rightarrow> (case chainedPromises pr of Some ps \<Rightarrow> ps | None \<Rightarrow> []))"

definition adopters :: "Promise \<Rightarrow> nat list" where
  "adopters pr =
     (case handledPromise pr of
        Some promise \<Rightarrow> [promise]
      | None \<Rightarrow> (case handledPromises pr of Some ps \<Rightarrow> ps | None \<Rightarrow> []))"

fun invocable :: "harg \<Rightarrow> handler option" where
  "invocable (Fn f) = Some f"
| "invocable (NotFn x) = None"

definition handler_given :: "baton \<Rightarrow> harg \<Rightarrow> harg \<Rightarrow> handler option" where
  "handler_given st onfulfilled onrejected =
     (case st of Fulfilled \<Rightarrow> invocable onfulfilled | Rejected \<Rightarrow> invocable onrejected)"

lemma links_settle [simp]:
  "chained (settle st v pr) = chained pr" "adopters (settle st v pr) = adopters pr"
  by (simp_all add: chained_def adopters_def settle_def split: option.splits)

lemma links_running [simp]:
  "chained (pr\<lparr>running := b\<rparr>) = chained pr" "adopters (pr\<lparr>running := b\<rparr>) = adopters pr"
  "handler_for st (pr\<lparr>running := b\<rparr>) = handler_for st pr"
  by (simp_all add: chained_def adopters_def handler_for_def split: option.splits baton.splits)

lemma grab_pending:
  "allocated h p \<Longrightarrow> state (get h p) = pending \<Longrightarrow>
   grab h p st v = (case handler_for st (get h p) of
                      Some f \<Rightarrow> run h p f v
                    | None \<Rightarrow> relay h p st v)"
  by (simp add: grab.simps handler_for_def)

lemma relay_chained_each: "relay_chained h p st v = grab_each h (chained (get h p)) st v"
  by (simp add: relay_chained.simps chained_def grab.simps split: option.splits)

lemma relay_handled_each: "relay_handled h p st v = relay_each h (adopters (get h p)) st v"
  by (simp add: relay_handled.simps adopters_def split: option.splits)

lemma relay_unfold:
  "allocated h p \<Longrightarrow> state (get h p) = pending \<Longrightarrow>
   relay h p st v =
     update p release
       (relay_each (grab_each (update p (settle st v) h) (chained (get h p)) st v)
          (adopters (get h p)) st v)"
proof -
  assume a: "allocated h p" and s: "state (get h p) = pending"
  let ?h1 = "update p (settle st v) h"
  let ?h2 = "relay_chained ?h1 p st v"
  have c: "cascade st v ?h1 ?h2" by (rule cascade_all)
  have g1: "get ?h1 p = settle st v (get h p)" using a by (simp add: get_update)
  have "get ?h2 p = get ?h1 p"
    using c a g1 by (intro cascade_settled_same[where st=st and v=v]) (auto simp: settle_def)
  then have "adopters (get ?h2 p) = adopters (get h p)" "chained (get ?h1 p) = chained (get h p)"
    using g1 by simp_all
  then show ?thesis
    using a s by (simp add: relay.simps relay_handled_each relay_chained_each)
qed

lemma relay_leaf:
  assumes "allocated h p" and "state (get h p) = pending"
    and "chained (get h p) = []" and "adopters (get h p) = []"
  shows "relay h p st v = update p release (update p (settle st v) h)"
  using assms by (simp add: relay_unfold)

lemma get_new:
  "q \<le> length (promises h) \<Longrightarrow>
   get (fst (new h)) q = (if q = length (promises h) then newPromise else get h q)"
  by (auto simp: new_def get_def nth_append)

lemma new_eq: "new h = (fst (new h), length (promises h))"
  by (simp add: new_def)

lemma allocated_new [simp]: "allocated (fst (new h)) q = (q \<le> length (promises h))"
  by (auto simp: new_def allocated_def)

lemma immediates_new [simp]: "immediates (fst (new h)) = immediates h"
  by (simp add: new_def)

lemma activations_new [simp]: "activations (fst (new h)) = activations h"
  by (simp add: new_def)

definition attached :: "heap \<Rightarrow> harg \<Rightarrow> harg \<Rightarrow> heap" where
  "attached h onfulfilled onrejected =
     update (length (promises h)) (set_handlers onfulfilled onrejected) (fst (new h))"

lemma get_attached:
  "q \<le> length (promises h) \<Longrightarrow>
   get (attached h onfulfilled onrejected) q =
     (if q = length (promises h) then set_handlers onfulfilled onrejected newPromise else get h q)"
  by (simp add: attached_def get_update get_new)

lemma then'_unfold:
  "then' h p onfulfilled onrejected =
     (case state (get (attached h onfulfilled onrejected) p) of
        pending \<Rightarrow> update p (add_chained (length (promises h))) (attached h onfulfilled onrejected)
      | fulfilled \<Rightarrow> grab (attached h onfulfilled onrejected) (length (promises h)) Fulfilled
                       (valueOrReason (get (attached h onfulfilled onrejected) p))
      | rejected \<Rightarrow> grab (attached h onfulfilled onrejected) (length (promises h)) Rejected
                       (valueOrReason (get (attached h onfulfilled onrejected) p)),
      length (promises h))"
  unfolding then'_def new_def attached_def Let_def by (simp cong: State.case_cong)

lemma set_handlers_new:
  "set_handlers onfulfilled onrejected newPromise =
     newPromise\<lparr>onPreviousFulfilled := invocable onfulfilled,
                 onPreviousRejected := invocable onrejected\<rparr>"
  by (cases onfulfilled; cases onrejected) (simp_all add: set_handlers_def newPromise_def)

lemma set_handlers_fresh [simp]:
  "state (set_handlers onfulfilled onrejected newPromise) = pending"
  "chained (set_handlers onfulfilled onrejected newPromise) = []"
  "adopters (set_handlers onfulfilled onrejected newPromise) = []"
  by (cases onfulfilled; cases onrejected;
      simp add: set_handlers_def newPromise_def chained_def adopters_def)+

lemma handler_for_attached:
  "handler_for st (set_handlers onfulfilled onrejected newPromise) =
     handler_given st onfulfilled onrejected"
  by (cases st) (simp_all add: handler_for_def handler_given_def set_handlers_new)

lemma then'_settled:
  assumes "allocated h p" and "state (get h p) = State_of st"
  shows "then' h p onfulfilled onrejected =
     (grab (attached h onfulfilled onrejected) (length (promises h)) st (valueOrReason (get h p)),
      length (promises h))"
proof -
  have "p < length (promises h)" using assms(1) by (auto simp: allocated_def)
  then have "get (attached h onfulfilled onrejected) p = get h p" by (simp add: get_attached)
  then show ?thesis using assms(2) by (cases st) (simp_all add: then'_unfold)
qed

lemma allocated_attached [simp]:
  "allocated (attached h onfulfilled onrejected) q = (q \<le> length (promises h))"
  by (simp add: attached_def)

lemma immediates_attached [simp]: "immediates (attached h a b) = immediates h"
  by (simp add: attached_def)

text \<open>
  C10. \<^verbatim>\<open>then\<close> on an already settled promise. When neither argument gives a handler for
  the kind the source settled to, the promise \<^verbatim>\<open>then\<close> returns is, at the moment it
  returns, settled with the state and the result of the source, and nothing was queued.
  When there is a handler for that kind, the returned promise is still pending and the
  handler call, with the result of the source, was appended to the task queue.
\<close>

theorem attach_to_settled:
  assumes "allocated h p" and "state (get h p) = State_of st"
    and "then' h p onfulfilled onrejected = (h', d)"
  shows "case handler_given st onfulfilled onrejected of
           None \<Rightarrow> state (get h' d) = state (get h p) \<and>
                   valueOrReason (get h' d) = valueOrReason (get h p) \<and>
                   immediates h' = immediates h
         | Some f \<Rightarrow> state (get h' d) = pending \<and>
                     immediates h' = immediates h @ [Task d f (valueOrReason (get h p))]"
proof -
  let ?a = "attached h onfulfilled onrejected"
  let ?d = "length (promises h)"
  let ?v = "valueOrReason (get h p)"
  have d: "d = ?d" and h': "h' = grab ?a ?d st ?v"
    using assms by (auto simp: then'_settled)
  have gd: "get ?a ?d = set_handlers onfulfilled onrejected newPromise"
    by (simp add: get_attached)
  have pd: "state (get ?a ?d) = pending" "chained (get ?a ?d) = []" "adopters (get ?a ?d) = []"
    by (simp_all add: gd)
  have g: "grab ?a ?d st ?v =
      (case handler_given st onfulfilled onrejected of
         Some f \<Rightarrow> run ?a ?d f ?v | None \<Rightarrow> relay ?a ?d st ?v)"
    using pd by (simp add: grab_pending gd handler_for_attached)
  show ?thesis
  proof (cases "handler_given st onfulfilled onrejected")
    case None
    then have "h' = update ?d release (update ?d (settle st ?v) ?a)"
      using g h' pd by (simp add: relay_leaf)
    then show ?thesis using None d assms(2)
      by (simp add: get_update gd settle_def)
  next
    case (Some f)
    then have "h' = run ?a ?d f ?v" using g h' by simp
    then show ?thesis using Some d pd by (simp add: get_run)
  qed
qed

lemmas heap_eval = new_def empty_heap_def resolve_def reject_def allocated_def get_def update_def
  settle_def release_def newPromise_def grab.simps relay.simps relay_chained.simps
  relay_handled.simps then'_def set_handlers_def add_chained_def add_handled_def run_def
  run_next_def activate_def clear_callback_def live_callback_def Let_def

definition rejected_example :: heap where
  "rejected_example = reject (fst (new empty_heap)) 0 (String ''e'')"

lemma rejected_example_eval:
  "allocated rejected_example 0" "state (get rejected_example 0) = rejected"
  "valueOrReason (get rejected_example 0) = String ''e''"
  "immediates rejected_example = []" "length (promises rejected_example) = 1"
  by (simp_all add: rejected_example_def heap_eval)

theorem attach_to_settled_witness:
  "allocated rejected_example 0 \<and> state (get rejected_example 0) = State_of Rejected \<and>
   snd (then' rejected_example 0 (Fn Return) (NotFn Undefined)) = 1 \<and>
   state (get (fst (then' rejected_example 0 (Fn Return) (NotFn Undefined))) 1) = rejected \<and>
   valueOrReason (get (fst (then' rejected_example 0 (Fn Return) (NotFn Undefined))) 1) = String ''e'' \<and>
   immediates (fst (then' rejected_example 0 (Fn Return) (NotFn Undefined))) = []"
proof -
  have t: "then' rejected_example 0 (Fn Return) (NotFn Undefined) =
      (fst (then' rejected_example 0 (Fn Return) (NotFn Undefined)), 1)"
    by (simp add: then'_unfold rejected_example_eval)
  have s: "snd (then' rejected_example 0 (Fn Return) (NotFn Undefined)) = 1"
    by (simp add: then'_unfold rejected_example_eval)
  show ?thesis
    using attach_to_settled[of rejected_example 0 Rejected "Fn Return" "NotFn Undefined", OF _ _ t]
      rejected_example_eval s
    by (simp add: handler_given_def)
qed

lemma reject_cases:
  assumes "allocated h p"
  shows "reject h p reason =
     (case state (get h p) of
        pending \<Rightarrow> (case onPreviousRejected (get h p) of
                      None \<Rightarrow> relay h p Rejected reason
                    | Some f \<Rightarrow> run h p f reason)
      | fulfilled \<Rightarrow> h
      | rejected \<Rightarrow> h)"
  using assms by (simp add: reject_def grab_pending handler_for_def split: State.splits)

definition caught_example :: heap where
  "caught_example = fst (then' (fst (new empty_heap)) 0 (NotFn Undefined) (Fn Return))"


definition fresh_example :: heap where
  "fresh_example = fst (new empty_heap)"

lemma fresh_example_eval:
  "allocated fresh_example 0" "state (get fresh_example 0) = pending"
  "onPreviousRejected (get fresh_example 0) = None"
  "onPreviousFulfilled (get fresh_example 0) = None"
  by (simp_all add: fresh_example_def heap_eval)

text \<open>
  C2, as the code has it. \<^verbatim>\<open>reject(reason)\<close> is \<^verbatim>\<open>this._grab(State.rejected, reason)\<close>. On
  a pending promise without a rejection handler it moves the promise to rejected with that
  reason. On a pending promise that carries a rejection handler it queues that handler with
  the reason and leaves the promise pending. On a settled promise it changes nothing.
\<close>

theorem reject_moves_to_rejected:
  assumes "allocated h p"
  shows "case state (get h p) of
           pending \<Rightarrow>
             (case onPreviousRejected (get h p) of
                None \<Rightarrow> state (get (reject h p reason) p) = rejected \<and>
                        valueOrReason (get (reject h p reason) p) = reason
              | Some f \<Rightarrow> state (get (reject h p reason) p) = pending \<and>
                          immediates (reject h p reason) = immediates h @ [Task p f reason])
         | fulfilled \<Rightarrow> reject h p reason = h
         | rejected \<Rightarrow> reject h p reason = h"
proof (cases "state (get h p)")
  case pending
  show ?thesis
  proof (cases "onPreviousRejected (get h p)")
    case None
    then show ?thesis
      using assms pending relay_pending[of h p Rejected reason]
      by (simp add: reject_cases)
  next
    case (Some f)
    then show ?thesis using assms pending by (simp add: reject_cases get_run)
  qed
qed (simp_all add: reject_cases assms)

theorem reject_moves_to_rejected_witness:
  "allocated fresh_example 0 \<and>
   state (get (reject fresh_example 0 (String ''e'')) 0) = rejected \<and>
   valueOrReason (get (reject fresh_example 0 (String ''e'')) 0) = String ''e''"
  using reject_moves_to_rejected[of fresh_example 0 "String ''e''"] fresh_example_eval
  by simp

text \<open>
  C2 as stated fails: a promise returned by \<^verbatim>\<open>then(undefined, onrejected)\<close> is still
  pending after \<^verbatim>\<open>reject\<close>, and once the queued handler has run it is fulfilled.
\<close>

theorem reject_with_handler_counterexample:
  "allocated caught_example 1 \<and> state (get caught_example 1) = pending \<and>
   state (get (reject caught_example 1 (String ''e'')) 1) = pending \<and>
   state (get (run_next (reject caught_example 1 (String ''e''))) 1) = fulfilled \<and>
   valueOrReason (get (run_next (reject caught_example 1 (String ''e''))) 1) = String ''e''"
  by (simp add: caught_example_def heap_eval)

section \<open>Self-resolution and handler outcomes\<close>

lemma resolve_self: "resolve h p (PromiseRef p) =
    reject h p (TypeError ''The promise should not return itself'')"
  by (simp add: resolve_def reject_def)

text \<open>
  C3, as the code has it. \<^verbatim>\<open>p.resolve(p)\<close> hands the type error to \<^verbatim>\<open>_grab\<close>. A
  pending \<open>p\<close> without a rejection handler ends rejected with the type error; a pending
  \<open>p\<close> with a rejection handler has that handler queued with the type error; a settled
  \<open>p\<close> is left as it is.
\<close>

theorem resolve_with_itself:
  assumes "allocated h p"
  shows "case state (get h p) of
           pending \<Rightarrow>
             (case onPreviousRejected (get h p) of
                None \<Rightarrow>
                  state (get (resolve h p (PromiseRef p)) p) = rejected \<and>
                  valueOrReason (get (resolve h p (PromiseRef p)) p) =
                    TypeError ''The promise should not return itself''
              | Some f \<Rightarrow>
                  state (get (resolve h p (PromiseRef p)) p) = pending \<and>
                  immediates (resolve h p (PromiseRef p)) =
                    immediates h @ [Task p f (TypeError ''The promise should not return itself'')])
         | fulfilled \<Rightarrow> resolve h p (PromiseRef p) = h
         | rejected \<Rightarrow> resolve h p (PromiseRef p) = h"
proof (cases "state (get h p)")
  case pending
  show ?thesis
  proof (cases "onPreviousRejected (get h p)")
    case None
    then show ?thesis
      using assms pending
        relay_pending[of h p Rejected "TypeError ''The promise should not return itself''"]
      by (simp add: resolve_self reject_cases)
  next
    case (Some f)
    then show ?thesis using assms pending by (simp add: resolve_self reject_cases get_run)
  qed
qed (simp_all add: resolve_self reject_cases assms)

theorem resolve_with_itself_witness:
  "allocated fresh_example 0 \<and>
   state (get (resolve fresh_example 0 (PromiseRef 0)) 0) = rejected \<and>
   valueOrReason (get (resolve fresh_example 0 (PromiseRef 0)) 0) =
     TypeError ''The promise should not return itself''"
  using resolve_with_itself[of fresh_example 0] fresh_example_eval
  by simp

text \<open>
  C3 as stated fails: a promise that is already fulfilled stays fulfilled, with its value,
  when it is resolved with itself.
\<close>

theorem resolve_with_itself_counterexample:
  "allocated settled_example 0 \<and> state (get settled_example 0) = fulfilled \<and>
   state (get (resolve settled_example 0 (PromiseRef 0)) 0) = fulfilled \<and>
   valueOrReason (get (resolve settled_example 0 (PromiseRef 0)) 0) = Number 1"
  by (simp add: settled_example_def heap_eval)



lemma get_update_other: "q \<noteq> p \<Longrightarrow> get (update p f h) q = get h q"
  by (simp add: get_update)




fun plain :: "val \<Rightarrow> bool" where
  "plain (PromiseRef p) = False"
| "plain (Object (GetterThrows e)) = False"
| "plain (Object (Function calls thrown)) = False"
| "plain x = True"

fun not_yet :: "heap \<Rightarrow> nat \<Rightarrow> val \<Rightarrow> bool" where
  "not_yet h this (PromiseRef p) = (p \<noteq> this \<and> allocated h p \<and> state (get h p) = pending)"
| "not_yet h this (Object (Function calls thrown)) = (calls = [] \<and> thrown = None)"
| "not_yet h this x = False"

lemma unpack_plain: "plain x \<Longrightarrow> unpack h this x cb = apply_callback h cb Fulfilled x"
  by (induction x rule: plain.induct) simp_all

lemma unpack_not_yet:
  assumes "not_yet h this x" and "allocated h this"
  shows "get (unpack h this x cb) this = get h this" and "allocated (unpack h this x cb) this"
  using assms
proof (induction h this x rule: not_yet.induct)
  case (1 h this p)
  {
    case 1
    then show ?case by (simp add: get_update)
  next
    case 2
    then show ?case by simp
  }
next
  case (2 h this calls thrown)
  {
    case 1
    then show ?case by (simp add: activate_def get_def Let_def)
  next
    case 2
    then show ?case by (simp add: activate_def allocated_def Let_def)
  }
qed simp_all

lemma resolve_cases:
  assumes "allocated h p" and "plain y"
  shows "resolve h p y =
     (case state (get h p) of
        pending \<Rightarrow> (case onPreviousFulfilled (get h p) of
                      None \<Rightarrow> relay h p Fulfilled y
                    | Some f \<Rightarrow> run h p f y)
      | fulfilled \<Rightarrow> h
      | rejected \<Rightarrow> h)"
  using assms by (simp add: resolve_def unpack_plain grab_pending handler_for_def split: State.splits)

lemma steps_settled:
  assumes "step\<^sup>*\<^sup>* h h'" and "allocated h p" and "state (get h p) = State_of st"
  shows "state (get h' p) = State_of st \<and> valueOrReason (get h' p) = valueOrReason (get h p)"
  using steps_kept[OF assms(1)] assms(2,3) by (simp add: kept_def)

text \<open>
  C9, as the code has it. \<^verbatim>\<open>resolve\<close> with a value that cannot deliver yet (another
  pending promise of the engine, or a foreign \<^verbatim>\<open>then\<close> that returns without calling a
  callback) leaves the promise pending and does not lock it. For a promise that carries no
  handler of the kind, a later \<^verbatim>\<open>reject\<close>, or a later \<^verbatim>\<open>resolve\<close> with a plain value,
  settles it with that later outcome, and whatever happens afterwards, the delivery of the
  earlier resolution included, leaves that outcome in place.
\<close>

theorem resolve_does_not_lock:
  assumes "allocated h p" and "state (get h p) = pending" and "not_yet h p x"
  shows "state (get (resolve h p x) p) = pending \<and>
         (onPreviousRejected (get h p) = None \<longrightarrow>
            state (get (reject (resolve h p x) p reason) p) = rejected \<and>
            valueOrReason (get (reject (resolve h p x) p reason) p) = reason \<and>
            (\<forall>h'. step\<^sup>*\<^sup>* (reject (resolve h p x) p reason) h' \<longrightarrow>
               state (get h' p) = rejected \<and> valueOrReason (get h' p) = reason)) \<and>
         (onPreviousFulfilled (get h p) = None \<and> plain y \<longrightarrow>
            state (get (resolve (resolve h p x) p y) p) = fulfilled \<and>
            valueOrReason (get (resolve (resolve h p x) p y) p) = y \<and>
            (\<forall>h'. step\<^sup>*\<^sup>* (resolve (resolve h p x) p y) h' \<longrightarrow>
               state (get h' p) = fulfilled \<and> valueOrReason (get h' p) = y))"
proof -
  let ?h1 = "resolve h p x"
  have g: "get ?h1 p = get h p" and a: "allocated ?h1 p"
    using assms unpack_not_yet[of h p x "GrabCallback p"] by (simp_all add: resolve_def)
  have 1: "state (get ?h1 p) = pending" using g assms(2) by simp
  have 2: "state (get (reject ?h1 p reason) p) = rejected \<and>
           valueOrReason (get (reject ?h1 p reason) p) = reason \<and>
           (\<forall>h'. step\<^sup>*\<^sup>* (reject ?h1 p reason) h' \<longrightarrow>
              state (get h' p) = rejected \<and> valueOrReason (get h' p) = reason)"
    if n: "onPreviousRejected (get h p) = None"
  proof -
    let ?h2 = "reject ?h1 p reason"
    have r: "?h2 = relay ?h1 p Rejected reason"
      using a 1 g n by (simp add: reject_cases)
    have s: "state (get ?h2 p) = State_of Rejected" "valueOrReason (get ?h2 p) = reason"
      unfolding r using relay_pending[OF a 1] by simp_all
    have al: "allocated ?h2 p"
      unfolding r using cascade_allocated[OF cascade_all(2), of ?h1 p Rejected reason p] a by simp
    have "state (get h' p) = rejected \<and> valueOrReason (get h' p) = reason"
      if "step\<^sup>*\<^sup>* ?h2 h'" for h'
      using steps_settled[OF that al s(1)] s(2) by simp
    then show ?thesis using s by simp
  qed
  have 3: "state (get (resolve ?h1 p y) p) = fulfilled \<and>
           valueOrReason (get (resolve ?h1 p y) p) = y \<and>
           (\<forall>h'. step\<^sup>*\<^sup>* (resolve ?h1 p y) h' \<longrightarrow>
              state (get h' p) = fulfilled \<and> valueOrReason (get h' p) = y)"
    if n: "onPreviousFulfilled (get h p) = None" and pl: "plain y"
  proof -
    let ?h2 = "resolve ?h1 p y"
    have r: "?h2 = relay ?h1 p Fulfilled y"
      using a 1 g n pl by (simp add: resolve_cases)
    have s: "state (get ?h2 p) = State_of Fulfilled" "valueOrReason (get ?h2 p) = y"
      unfolding r using relay_pending[OF a 1] by simp_all
    have al: "allocated ?h2 p"
      unfolding r using cascade_allocated[OF cascade_all(2), of ?h1 p Fulfilled y p] a by simp
    have "state (get h' p) = fulfilled \<and> valueOrReason (get h' p) = y"
      if "step\<^sup>*\<^sup>* ?h2 h'" for h'
      using steps_settled[OF that al s(1)] s(2) by simp
    then show ?thesis using s by simp
  qed
  show ?thesis using 1 2 3 by blast
qed

definition pair_example :: heap where
  "pair_example = fst (new (fst (new empty_heap)))"

lemma pair_example_eval:
  "allocated pair_example 0" "state (get pair_example 0) = pending"
  "not_yet pair_example 0 (PromiseRef 1)"
  "onPreviousRejected (get pair_example 0) = None"
  by (simp_all add: pair_example_def heap_eval)

theorem resolve_does_not_lock_witness:
  "allocated pair_example 0 \<and> state (get pair_example 0) = pending \<and>
   not_yet pair_example 0 (PromiseRef 1) \<and>
   state (get (resolve pair_example 0 (PromiseRef 1)) 0) = pending \<and>
   state (get (reject (resolve pair_example 0 (PromiseRef 1)) 0 (String ''r'')) 0) = rejected \<and>
   valueOrReason (get (reject (resolve pair_example 0 (PromiseRef 1)) 0 (String ''r'')) 0) = String ''r'' \<and>
   state (get (resolve (reject (resolve pair_example 0 (PromiseRef 1)) 0 (String ''r'')) 1 (Number 5)) 1)
     = fulfilled \<and>
   state (get (resolve (reject (resolve pair_example 0 (PromiseRef 1)) 0 (String ''r'')) 1 (Number 5)) 0)
     = rejected \<and>
   valueOrReason
     (get (resolve (reject (resolve pair_example 0 (PromiseRef 1)) 0 (String ''r'')) 1 (Number 5)) 0)
     = String ''r''"
proof -
  let ?h2 = "reject (resolve pair_example 0 (PromiseRef 1)) 0 (String ''r'')"
  have "allocated ?h2 1"
    by (simp add: pair_example_def heap_eval)
  then have s: "step\<^sup>*\<^sup>* ?h2 (resolve ?h2 1 (Number 5))"
    by (intro r_into_rtranclp step_resolve)
  have b: "state (get (resolve ?h2 1 (Number 5)) 1) = fulfilled"
    by (simp add: pair_example_def heap_eval)
  show ?thesis
    using resolve_does_not_lock[of pair_example 0 "PromiseRef 1" "String ''r'' " Undefined]
      pair_example_eval s b
    by simp
qed

text \<open>
  C9 as stated fails on a promise that carries a rejection handler: after \<^verbatim>\<open>resolve\<close>
  with a pending promise, \<^verbatim>\<open>reject\<close> queues the handler and leaves the promise pending,
  and when the other promise then fulfils, its value is delivered to the promise.
\<close>

definition caught_pair :: heap where
  "caught_pair = fst (new caught_example)"

theorem resolve_then_reject_with_handler_counterexample:
  "allocated caught_pair 1 \<and> state (get caught_pair 1) = pending \<and>
   not_yet caught_pair 1 (PromiseRef 2) \<and>
   state (get (resolve caught_pair 1 (PromiseRef 2)) 1) = pending \<and>
   state (get (reject (resolve caught_pair 1 (PromiseRef 2)) 1 (String ''r'')) 1) = pending \<and>
   state (get (resolve (reject (resolve caught_pair 1 (PromiseRef 2)) 1 (String ''r'')) 2
                 (Number 5)) 1) = fulfilled \<and>
   valueOrReason (get (resolve (reject (resolve caught_pair 1 (PromiseRef 2)) 1 (String ''r'')) 2
                 (Number 5)) 1) = Number 5"
  by (simp add: caught_pair_def caught_example_def heap_eval nth_append)

section \<open>Pending promises keep their handlers and links\<close>

definition grows :: "heap \<Rightarrow> heap \<Rightarrow> bool" where
  "grows h h' \<longleftrightarrow>
     length (promises h) \<le> length (promises h') \<and>
     (\<forall>q. allocated h q \<longrightarrow> state (get h' q) = pending \<longrightarrow>
        state (get h q) = pending \<and>
        onPreviousFulfilled (get h' q) = onPreviousFulfilled (get h q) \<and>
        onPreviousRejected (get h' q) = onPreviousRejected (get h q) \<and>
        prefix (chained (get h q)) (chained (get h' q)) \<and>
        prefix (adopters (get h q)) (adopters (get h' q)))"

lemma grows_refl [simp]: "grows h h"
  by (simp add: grows_def)

lemma grows_trans:
  assumes "grows h h1" and "grows h1 h2"
  shows "grows h h2"
  unfolding grows_def
proof (intro conjI allI impI)
  show "length (promises h) \<le> length (promises h2)"
    using assms by (simp add: grows_def)
next
  fix q assume a: "allocated h q" and p: "state (get h2 q) = pending"
  have a1: "allocated h1 q" using a assms(1) by (simp add: grows_def allocated_def)
  have 2: "state (get h1 q) = pending"
    "onPreviousFulfilled (get h2 q) = onPreviousFulfilled (get h1 q)"
    "onPreviousRejected (get h2 q) = onPreviousRejected (get h1 q)"
    "prefix (chained (get h1 q)) (chained (get h2 q))"
    "prefix (adopters (get h1 q)) (adopters (get h2 q))"
    using assms(2) a1 p by (simp_all add: grows_def)
  have 1: "state (get h q) = pending"
    "onPreviousFulfilled (get h1 q) = onPreviousFulfilled (get h q)"
    "onPreviousRejected (get h1 q) = onPreviousRejected (get h q)"
    "prefix (chained (get h q)) (chained (get h1 q))"
    "prefix (adopters (get h q)) (adopters (get h1 q))"
    using assms(1) a 2(1) by (simp_all add: grows_def)
  show "state (get h q) = pending" by (rule 1)
  show "onPreviousFulfilled (get h2 q) = onPreviousFulfilled (get h q)" using 1 2 by simp
  show "onPreviousRejected (get h2 q) = onPreviousRejected (get h q)" using 1 2 by simp
  show "prefix (chained (get h q)) (chained (get h2 q))" using 1(4) 2(4) by (rule prefix_order.trans)
  show "prefix (adopters (get h q)) (adopters (get h2 q))" using 1(5) 2(5) by (rule prefix_order.trans)
qed

lemma pending_not_State_of [simp]: "pending \<noteq> State_of st"
  by (cases st) simp_all

lemma cascade_pending:
  assumes "cascade st v h h'" and "allocated h q" and "state (get h' q) = pending"
  shows "state (get h q) = pending"
    and "get h' q = get h q \<or> get h' q = (get h q)\<lparr>running := True\<rparr>"
proof -
  have m: "moved st v (get h q) (get h' q)" using assms(1,2) by (simp add: cascade_def)
  show "state (get h q) = pending" using m assms(3) unfolding moved_def by auto
  show "get h' q = get h q \<or> get h' q = (get h q)\<lparr>running := True\<rparr>"
    using m assms(3) unfolding moved_def by auto
qed

lemma cascade_grows:
  assumes "cascade st v h h'"
  shows "grows h h'"
  unfolding grows_def
proof (intro conjI allI impI)
  show "length (promises h) \<le> length (promises h')" using assms by (simp add: cascade_def)
next
  fix q assume a: "allocated h q" and p: "state (get h' q) = pending"
  note c = cascade_pending[OF assms a p]
  show "state (get h q) = pending" by (rule c)
  show "onPreviousFulfilled (get h' q) = onPreviousFulfilled (get h q)" using c(2) by auto
  show "onPreviousRejected (get h' q) = onPreviousRejected (get h q)" using c(2) by auto
  show "prefix (chained (get h q)) (chained (get h' q))" using c(2) by auto
  show "prefix (adopters (get h q)) (adopters (get h' q))" using c(2) by auto
qed

lemma grows_update:
  assumes "\<And>pr. state (f pr) = pending \<Longrightarrow>
     state pr = pending \<and> onPreviousFulfilled (f pr) = onPreviousFulfilled pr \<and>
     onPreviousRejected (f pr) = onPreviousRejected pr \<and>
     prefix (chained pr) (chained (f pr)) \<and> prefix (adopters pr) (adopters (f pr))"
  shows "grows h (update p f h)"
  unfolding grows_def using assms by (auto simp: get_update)

lemma grows_promises: "promises h' = promises h \<Longrightarrow> grows h h'"
  by (simp add: grows_def get_def allocated_def)

lemma grows_grab [simp]: "grows h (grab h p st v)"
  by (blast intro: cascade_grows cascade_all)

lemma grows_relay [simp]: "grows h (relay h p st v)"
  by (blast intro: cascade_grows cascade_all)

lemma grows_not_running: "grows h (update p (\<lambda>pr. pr\<lparr>running := False\<rparr>) h)"
  by (rule grows_update) simp

lemma chained_add_chained: "chained (add_chained d pr) = chained pr @ [d]"
  by (simp add: chained_def add_chained_def split: option.splits)

lemma adopters_add_chained: "adopters (add_chained d pr) = adopters pr"
  by (simp add: adopters_def add_chained_def split: option.splits)

lemma adopters_add_handled: "adopters (add_handled d pr) = adopters pr @ [d]"
  by (simp add: adopters_def add_handled_def split: option.splits)

lemma chained_add_handled: "chained (add_handled d pr) = chained pr"
  by (simp add: chained_def add_handled_def split: option.splits)

lemma fields_add_chained [simp]:
  "state (add_chained d pr) = state pr" "valueOrReason (add_chained d pr) = valueOrReason pr"
  "onPreviousFulfilled (add_chained d pr) = onPreviousFulfilled pr"
  "onPreviousRejected (add_chained d pr) = onPreviousRejected pr"
  by (simp_all add: add_chained_def split: option.splits)

lemma fields_add_handled [simp]:
  "state (add_handled d pr) = state pr" "valueOrReason (add_handled d pr) = valueOrReason pr"
  "onPreviousFulfilled (add_handled d pr) = onPreviousFulfilled pr"
  "onPreviousRejected (add_handled d pr) = onPreviousRejected pr"
  by (simp_all add: add_handled_def split: option.splits)

lemma grows_add_handled: "grows h (update p (add_handled d) h)"
  by (rule grows_update) (simp add: adopters_add_handled chained_add_handled)

lemma grows_add_chained: "grows h (update p (add_chained d) h)"
  by (rule grows_update) (simp add: adopters_add_chained chained_add_chained)

lemma grows_apply_callback [simp]: "grows h (apply_callback h cb st v)"
proof (cases cb)
  case (GrabCallback p)
  then show ?thesis by simp
next
  case (RelayCallback p)
  then show ?thesis
    by (auto intro: grows_trans[OF grows_relay] grows_not_running)
qed

lemma grows_activate [simp]: "grows h (activate h this cb)"
  by (simp add: grows_promises activate_def)

lemma grows_clear_callback [simp]: "grows h (clear_callback a h)"
  by (simp add: grows_promises clear_callback_def)

lemma grows_unpack_all:
  shows "grows h (unpack h this x cb)"
    and "grows h (call_then h a cs)"
    and "grows h (invoke h a w x)"
proof (induct h this x cb and h a cs and h a w x rule: unpack_call_then_invoke.induct)
  case (1 h this p cb)
  then show ?case by (auto split: State.splits simp: grows_add_handled)
next
  case (4 h this calls thrown cb)
  let ?h1 = "call_then (activate h this cb) (length (activations h)) calls"
  have k1: "grows h ?h1"
    using 4 by (blast intro: grows_trans grows_activate)
  show ?case
  proof (cases thrown)
    case None
    then show ?thesis using k1 by (simp add: Let_def)
  next
    case (Some e)
    show ?thesis
    proof (cases "live_callback ?h1 (length (activations h))")
      case None
      then show ?thesis using k1 Some by (simp add: Let_def)
    next
      case (Some cb')
      have "grows ?h1 (clear_callback (length (activations h)) (apply_callback ?h1 cb' Rejected e))"
        by (blast intro: grows_trans grows_apply_callback grows_clear_callback)
      then show ?thesis using k1 Some \<open>thrown = Some e\<close>
        by (auto simp: Let_def intro: grows_trans)
    qed
  qed
next
  case (12 h a r w v cs)
  then show ?case by (auto intro: grows_trans)
next
  case (13 h a v)
  show ?case
  proof (cases "live_callback h a")
    case None
    then show ?thesis by simp
  next
    case (Some cb)
    then show ?thesis using 13[OF Some]
      by (auto intro: grows_trans grows_clear_callback)
  qed
next
  case (14 h a reason)
  show ?case
  proof (cases "live_callback h a")
    case None
    then show ?thesis by simp
  next
    case (Some cb)
    have "grows h (clear_callback a (apply_callback h cb Rejected reason))"
      by (blast intro: grows_trans grows_apply_callback grows_clear_callback)
    then show ?thesis using Some by simp
  qed
qed simp_all

lemma grows_new [simp]: "grows h (fst (new h))"
  by (auto simp: grows_def new_def get_def allocated_def nth_append)

lemma length_attached [simp]:
  "length (promises (attached h onfulfilled onrejected)) = Suc (length (promises h))"
  by (simp add: attached_def new_def)

lemma grows_attached [simp]: "grows h (attached h onfulfilled onrejected)"
  unfolding grows_def by (simp add: get_attached allocated_def)

lemma grows_run_task [simp]: "grows h (run_task h t)"
proof (cases t)
  case (Task this handler x)
  have "grows h (update this (\<lambda>pr. pr\<lparr>running := False\<rparr>) (relay h this Rejected e))" for e
    by (rule grows_trans[OF grows_relay]) (rule grows_not_running)
  then show ?thesis using Task
    by (auto split: outcome.splits simp: grows_unpack_all)
qed

lemma grows_run_next [simp]: "grows h (run_next h)"
proof (cases "immediates h")
  case Nil
  then show ?thesis by (simp add: run_next_def)
next
  case (Cons t ts)
  have "grows h (h\<lparr>immediates := ts\<rparr>)" by (simp add: grows_promises)
  then show ?thesis using Cons
    by (auto simp: run_next_def intro: grows_trans grows_run_task)
qed

lemma grows_then [simp]: "grows h (fst (then' h p onfulfilled onrejected))"
proof -
  let ?a = "attached h onfulfilled onrejected"
  have "grows ?a (fst (then' h p onfulfilled onrejected))"
    by (auto simp: then'_unfold grows_add_chained split: State.splits)
  then show ?thesis by (blast intro: grows_trans grows_attached)
qed

lemma step_grows: "step h h' \<Longrightarrow> grows h h'"
  by (induction rule: step.induct)
     (simp_all add: resolve_def reject_def grows_unpack_all)

lemma steps_grows: "step\<^sup>*\<^sup>* h h' \<Longrightarrow> grows h h'"
  by (induction rule: rtranclp_induct) (auto intro: grows_trans step_grows)

section \<open>Passing a settlement through a promise without a matching handler\<close>

definition settled_as :: "baton \<Rightarrow> val \<Rightarrow> heap \<Rightarrow> nat \<Rightarrow> bool" where
  "settled_as st v h d \<longleftrightarrow>
     allocated h d \<and> state (get h d) = State_of st \<and> valueOrReason (get h d) = v"

definition passes :: "baton \<Rightarrow> val \<Rightarrow> heap \<Rightarrow> nat \<Rightarrow> bool" where
  "passes st v h d \<longleftrightarrow>
     allocated h d \<and>
     (state (get h d) = pending \<and> handler_for st (get h d) = None \<or>
      state (get h d) = State_of st \<and> valueOrReason (get h d) = v)"

lemma settled_as_cascade:
  assumes "settled_as st v h d" and "cascade st v h h'"
  shows "settled_as st v h' d"
proof -
  have "get h' d = get h d"
    using assms by (intro cascade_settled_same[where st=st and v=v]) (auto simp: settled_as_def)
  then show ?thesis using assms cascade_allocated[OF assms(2), of d] by (simp add: settled_as_def)
qed

lemma passes_cascade:
  assumes "passes st v h d" and "cascade st v h h'"
  shows "passes st v h' d"
proof -
  have a: "allocated h d" using assms(1) by (simp add: passes_def)
  have m: "moved st v (get h d) (get h' d)" using assms(2) a by (simp add: cascade_def)
  have a': "allocated h' d" using a cascade_allocated[OF assms(2), of d] by simp
  show ?thesis using assms(1) m a' unfolding passes_def moved_def by auto
qed

lemma grab_passes:
  assumes "passes st v h d"
  shows "settled_as st v (grab h d st v) d"
proof (cases "state (get h d) = pending")
  case True
  then have "grab h d st v = relay h d st v"
    using assms by (simp add: passes_def grab_pending)
  then show ?thesis
    using assms True relay_pending[of h d st v] cascade_allocated[OF cascade_all(2), of h d st v d]
    by (simp add: settled_as_def passes_def)
next
  case False
  then show ?thesis using assms by (simp add: settled_as_def passes_def)
qed

lemma grab_each_passes:
  "d \<in> set ps \<Longrightarrow> passes st v h d \<Longrightarrow> settled_as st v (grab_each h ps st v) d"
proof (induction ps arbitrary: h)
  case Nil
  then show ?case by simp
next
  case (Cons q qs)
  show ?case
  proof (cases "q = d")
    case True
    have "settled_as st v (grab h d st v) d" using Cons.prems(2) by (rule grab_passes)
    then show ?thesis using True
      by (auto intro: settled_as_cascade cascade_all)
  next
    case False
    have "passes st v (grab h q st v) d"
      using Cons.prems(2) by (rule passes_cascade) (rule cascade_all)
    then show ?thesis using Cons False by simp
  qed
qed

lemma relay_passes:
  assumes "allocated h p" and "state (get h p) = pending"
    and "d \<in> set (chained (get h p))" and "passes st v h d"
  shows "settled_as st v (relay h p st v) d"
proof -
  let ?h1 = "update p (settle st v) h"
  let ?h2 = "grab_each ?h1 (chained (get h p)) st v"
  let ?h3 = "relay_each ?h2 (adopters (get h p)) st v"
  have "passes st v ?h1 d"
    using assms(1,4) by (auto simp: passes_def get_update settle_def)
  then have "settled_as st v ?h2 d" using assms(3) by (intro grab_each_passes)
  then have "settled_as st v ?h3 d" by (rule settled_as_cascade) (rule cascade_all)
  then have "settled_as st v (update p release ?h3) d"
    by (auto simp: settled_as_def get_update)
  then show ?thesis using assms(1,2) by (simp add: relay_unfold)
qed

lemma then'_pending:
  assumes "allocated h p" and "state (get h p) = pending"
  shows "then' h p onfulfilled onrejected =
     (update p (add_chained (length (promises h))) (attached h onfulfilled onrejected),
      length (promises h))"
proof -
  have "p < length (promises h)" using assms(1) by (simp add: allocated_def)
  then have "get (attached h onfulfilled onrejected) p = get h p" by (simp add: get_attached)
  then show ?thesis using assms(2) by (simp add: then'_unfold)
qed

lemma then'_registers:
  assumes "allocated h p" and "state (get h p) = pending"
    and "then' h p onfulfilled onrejected = (h1, d)"
  shows "d = length (promises h)" and "allocated h1 d" and "allocated h1 p" and "d \<noteq> p"
    and "get h1 d = set_handlers onfulfilled onrejected newPromise"
    and "chained (get h1 p) = chained (get h p) @ [d]"
    and "state (get h1 p) = pending"
proof -
  let ?a = "attached h onfulfilled onrejected"
  have d: "d = length (promises h)" and h1: "h1 = update p (add_chained d) ?a"
    using assms by (auto simp: then'_pending)
  have p: "p < length (promises h)" using assms(1) by (simp add: allocated_def)
  then have gp: "get ?a p = get h p" by (simp add: get_attached)
  show "d = length (promises h)" by (rule d)
  show "allocated h1 d" "allocated h1 p" "d \<noteq> p" using d h1 p by simp_all
  show "get h1 d = set_handlers onfulfilled onrejected newPromise"
    using d h1 p by (simp add: get_update get_attached)
  show "chained (get h1 p) = chained (get h p) @ [d]"
    using h1 p gp by (simp add: get_update chained_add_chained)
  show "state (get h1 p) = pending"
    using h1 p gp assms(2) by (simp add: get_update)
qed

text \<open>
  C8. \<^verbatim>\<open>then\<close> stores an argument as a handler only when it is a function; any other
  argument leaves the slot empty. Let \<open>d\<close> be the promise a \<^verbatim>\<open>then\<close> call on the pending
  \<open>p\<close> returned, with no handler given for the kind \<open>st\<close>. Whatever happens afterwards, as
  long as \<open>p\<close> and \<open>d\<close> are still pending, the settlement of \<open>p\<close> as \<open>st\<close> with result
  \<open>v\<close> leaves \<open>d\<close> settled as \<open>st\<close> with \<open>v\<close>. With \<open>st\<close> the rejected state and only
  a fulfilment handler given, this is a rejection passing the \<^verbatim>\<open>then\<close> call unchanged.
\<close>

theorem pass_through:
  assumes "allocated h p" and "state (get h p) = pending"
    and "then' h p onfulfilled onrejected = (h1, d)"
    and "handler_given st onfulfilled onrejected = None"
    and "step\<^sup>*\<^sup>* h1 h2" and "state (get h2 p) = pending" and "state (get h2 d) = pending"
  shows "onPreviousFulfilled (get h1 d) = invocable onfulfilled \<and>
         onPreviousRejected (get h1 d) = invocable onrejected \<and>
         state (get (relay h2 p st v) d) = State_of st \<and>
         valueOrReason (get (relay h2 p st v) d) = v"
proof -
  note r = then'_registers[OF assms(1-3)]
  have g: "grows h1 h2" using assms(5) by (rule steps_grows)
  have k: "kept h1 h2" using assms(5) by (rule steps_kept)
  have a2: "allocated h2 p" "allocated h2 d"
    using r(2,3) k by (auto intro: kept_allocated)
  have gp: "prefix (chained (get h1 p)) (chained (get h2 p))"
    using g r(3) assms(6) by (simp add: grows_def)
  have "d \<in> set (chained (get h1 p))" using r(6) by simp
  then have in2: "d \<in> set (chained (get h2 p))"
    using gp set_mono_prefix by blast
  have hd: "onPreviousFulfilled (get h2 d) = onPreviousFulfilled (get h1 d)"
    "onPreviousRejected (get h2 d) = onPreviousRejected (get h1 d)"
    using g r(2) assms(7) by (simp_all add: grows_def)
  have h1d: "onPreviousFulfilled (get h1 d) = invocable onfulfilled"
    "onPreviousRejected (get h1 d) = invocable onrejected"
    using r(5) by (simp_all add: set_handlers_new)
  have "handler_for st (get h2 d) = handler_given st onfulfilled onrejected"
    using hd h1d by (cases st) (simp_all add: handler_for_def handler_given_def)
  then have "passes st v h2 d"
    using a2 assms(4,7) by (simp add: passes_def)
  then have "settled_as st v (relay h2 p st v) d"
    using a2(1) assms(6) in2 by (intro relay_passes)
  then show ?thesis using h1d by (simp add: settled_as_def)
qed

theorem pass_through_witness:
  "allocated fresh_example 0 \<and> state (get fresh_example 0) = pending \<and>
   then' fresh_example 0 (Fn Return) (NotFn Undefined) =
     (fst (then' fresh_example 0 (Fn Return) (NotFn Undefined)), 1) \<and>
   handler_given Rejected (Fn Return) (NotFn Undefined) = None \<and>
   onPreviousRejected (get (fst (then' fresh_example 0 (Fn Return) (NotFn Undefined))) 1) = None \<and>
   state (get (relay (fst (new (fst (then' fresh_example 0 (Fn Return) (NotFn Undefined))))) 0
                 Rejected (String ''r'')) 1) = rejected \<and>
   valueOrReason (get (relay (fst (new (fst (then' fresh_example 0 (Fn Return) (NotFn Undefined))))) 0
                 Rejected (String ''r'')) 1) = String ''r''"
proof -
  let ?h1 = "fst (then' fresh_example 0 (Fn Return) (NotFn Undefined))"
  have t: "then' fresh_example 0 (Fn Return) (NotFn Undefined) = (?h1, 1)"
    by (simp add: fresh_example_def heap_eval)
  have s: "step\<^sup>*\<^sup>* ?h1 (fst (new ?h1))"
    by (rule r_into_rtranclp) (rule step_new)
  have e: "state (get (fst (new ?h1)) 0) = pending" "state (get (fst (new ?h1)) 1) = pending"
    by (simp_all add: fresh_example_def heap_eval nth_append)
  have g: "handler_given Rejected (Fn Return) (NotFn Undefined) = None"
    by (simp add: handler_given_def)
  show ?thesis
    using pass_through[OF _ _ t g s e, of "String ''r''"] fresh_example_eval g t
    by simp
qed

section \<open>Adoption\<close>

definition drained :: "heap \<Rightarrow> heap \<Rightarrow> bool" where
  "drained h h' \<longleftrightarrow>
     (\<forall>q a. allocated h q \<longrightarrow> state (get h q) = pending \<longrightarrow> state (get h' q) \<noteq> pending \<longrightarrow>
        a \<in> set (adopters (get h q)) \<longrightarrow> allocated h a \<longrightarrow> state (get h' a) \<noteq> pending)"


lemma drained_refl [simp]: "drained h h"
  by (simp add: drained_def)





















section \<open>Fan-out\<close>


fun task_promise :: "task \<Rightarrow> nat" where
  "task_promise (Task p f x) = p"




definition only_below :: "nat \<Rightarrow> heap \<Rightarrow> heap \<Rightarrow> bool" where
  "only_below n h h' \<longleftrightarrow>
     (\<forall>q. n \<le> q \<longrightarrow> get h' q = get h q) \<and>
     (\<exists>ts. immediates h' = immediates h @ ts \<and> (\<forall>t \<in> set ts. task_promise t < n))"

lemma only_below_refl [simp]: "only_below n h h"
  by (simp add: only_below_def)







lemma cascade_grab_each: "cascade st v h (grab_each h ps st v)"
  by (rule cascade_all)



















lemma allocated_apply_callback [simp]: "allocated (apply_callback h cb st v) q = allocated h q"
  using cascade_allocated[OF cascade_all(1)] cascade_allocated[OF cascade_all(2)]
  by (cases cb) simp_all

lemma allocated_clear_callback [simp]: "allocated (clear_callback a h) q = allocated h q"
  by (simp add: allocated_def clear_callback_def)

lemma allocated_activate [simp]: "allocated (activate h this cb) q = allocated h q"
  by (simp add: allocated_def activate_def)




lemma links_set_handlers [simp]:
  "chained (set_handlers a b pr) = chained pr" "adopters (set_handlers a b pr) = adopters pr"
  "state (set_handlers a b pr) = state pr"
proof -
  have "set_handlers a b pr =
      pr\<lparr>onPreviousFulfilled := (case a of Fn f \<Rightarrow> Some f | NotFn x \<Rightarrow> onPreviousFulfilled pr),
         onPreviousRejected := (case b of Fn f \<Rightarrow> Some f | NotFn x \<Rightarrow> onPreviousRejected pr)\<rparr>"
    by (cases a; cases b) (simp_all add: set_handlers_def)
  then show "chained (set_handlers a b pr) = chained pr"
    "adopters (set_handlers a b pr) = adopters pr" "state (set_handlers a b pr) = state pr"
    by (simp_all add: chained_def adopters_def split: option.splits)
qed



















section \<open>Foreign then-shaped objects\<close>

text \<open>
  What the guard does achieve: once the first call of a callback has returned, every later
  call of the two callbacks of that \<^verbatim>\<open>then\<close>, and a throw, are ignored; and a throw
  before any call is delivered as a rejection.
\<close>

fun own_call :: "call \<Rightarrow> bool" where
  "own_call (Call r w v) = (r = Own)"

lemma live_callback_cleared [simp]: "live_callback (clear_callback a h) a = None"
  by (simp add: live_callback_def clear_callback_def)

lemma live_callback_activate [simp]:
  "live_callback (activate h this cb) (length (activations h)) = Some cb"
  by (simp add: live_callback_def activate_def)

lemma invoke_dead: "live_callback h a = None \<Longrightarrow> invoke h a w v = h"
  by (cases w) simp_all

lemma call_then_dead:
  "live_callback h a = None \<Longrightarrow> \<forall>c \<in> set cs. own_call c \<Longrightarrow> call_then h a cs = h"
proof (induction cs)
  case Nil
  then show ?case by simp
next
  case (Cons c cs)
  obtain r w v where c: "c = Call r w v" by (cases c)
  then have "r = Own" using Cons.prems(2) by simp
  then show ?case using Cons c by (simp add: invoke_dead)
qed

lemma invoke_clears: "live_callback (invoke h a w v) a = None"
  by (cases w; cases "live_callback h a") simp_all

lemma foreign_first_call_wins:
  assumes "\<forall>c \<in> set rest. own_call c"
  shows "unpack h this (Object (Function (Call Own w v # rest) thrown)) cb =
         invoke (activate h this cb) (length (activations h)) w v"
proof -
  let ?a = "length (activations h)"
  let ?h1 = "invoke (activate h this cb) ?a w v"
  have dead: "live_callback ?h1 ?a = None" by (rule invoke_clears)
  then have "call_then ?h1 ?a rest = ?h1" using assms by (rule call_then_dead)
  then show ?thesis using dead by (simp add: Let_def split: option.splits)
qed

lemma foreign_throw_before_call:
  "unpack h this (Object (Function [] (Some e))) cb =
     clear_callback (length (activations h)) (apply_callback (activate h this cb) cb Rejected e)"
  by (simp add: Let_def)

definition reentrant_inner :: val where
  "reentrant_inner =
     Object (Function [Call (Kept 0) rejectPromise (String ''boom''),
                       Call Own resolvePromise (Number 7)] None)"

definition reentrant_outer :: val where
  "reentrant_outer = Object (Function [Call Own resolvePromise reentrant_inner] None)"

definition handled_example :: heap where
  "handled_example = fst (then' fresh_example 0 (Fn Return) (Fn Return))"

text \<open>
  C5, at a failing input. The closures handed to a foreign \<^verbatim>\<open>then\<close> set the shared
  \<^verbatim>\<open>callback\<close> variable to \<^verbatim>\<open>undefined\<close> only after their work: the fulfil closure
  clears it after \<^verbatim>\<open>this._unpack(value, callback)\<close> has returned. A callback that is called
  while that \<^verbatim>\<open>_unpack\<close> is running still finds it set. Here the outer object calls its
  fulfil callback with an inner then-shaped object, whose \<^verbatim>\<open>then\<close> calls the outer
  reject callback (kept by the outer \<^verbatim>\<open>then\<close>) and then its own fulfil callback. Both
  calls deliver: a promise with handlers gets two handler calls queued, and a promise
  without handlers ends rejected by the second call although the first call was the one
  that fulfils.
\<close>

theorem reentrant_then_delivers_twice:
  "activations handled_example = [] \<and> state (get handled_example 1) = pending \<and>
   immediates handled_example = [] \<and>
   immediates (resolve handled_example 1 reentrant_outer) =
     [Task 1 Return (String ''boom''), Task 1 Return (Number 7)] \<and>
   state (get (resolve fresh_example 0 reentrant_outer) 0) = rejected \<and>
   valueOrReason (get (resolve fresh_example 0 reentrant_outer) 0) = String ''boom''"
  by (simp add: handled_example_def fresh_example_def reentrant_outer_def reentrant_inner_def
      heap_eval)

end
